theory Spec2Isabelle
  imports Complex_Main "HOL-Library.Sublist" "HOL-Library.Log_Nat"
begin

section \<open>Data model\<close>

text \<open>
  A LogicNode is the JSON object returned by the parsing service, read by the program
  only through \<^verbatim>\<open>node.get(key)\<close> and \<^verbatim>\<open>node.get(key, default)\<close> on the four keys
  \<^verbatim>\<open>type\<close>, \<^verbatim>\<open>relation\<close>, \<^verbatim>\<open>text\<close> and \<^verbatim>\<open>children\<close>. A key that is absent from
  the object is \<open>None\<close>; a key that is present holds a value of the type the data model
  gives it (a string, or a list of nodes for \<^verbatim>\<open>children\<close>). Strings are character
  lists.
\<close>

datatype LogicNode =
  LogicNode (node_type: "string option") (node_relation: "string option")
            (node_text: "string option") (node_children: "LogicNode list option")

text \<open>\<^verbatim>\<open>d.get(key, default)\<close>: the value stored under the key, the default when the key is absent.\<close>

definition dict_get :: "'a option \<Rightarrow> 'a \<Rightarrow> 'a" where
  "dict_get field dflt = (case field of None \<Rightarrow> dflt | Some v \<Rightarrow> v)"

section \<open>Tree depth\<close>

text \<open>
  \<^verbatim>\<open>get_tree_depth\<close> (lines 18-36). The \<^verbatim>\<open>for child in children\<close> loop is the function
  \<open>max_child_depth_loop\<close>: its second argument is the variable \<^verbatim>\<open>max_child_depth\<close>,
  which the caller initialises to 0. \<^verbatim>\<open>node.get("type")\<close> has no default, so an absent
  type is Python's \<^verbatim>\<open>None\<close>, which is not equal to \<^verbatim>\<open>"leaf"\<close>.
\<close>

function get_tree_depth :: "LogicNode \<Rightarrow> int"
  and max_child_depth_loop :: "LogicNode list \<Rightarrow> int \<Rightarrow> int" where
  "get_tree_depth node =
     (if node_type node = Some ''leaf'' then 1
      else let children = dict_get (node_children node) [] in
        if children = [] then 1
        else 1 + max_child_depth_loop children 0)"
| "max_child_depth_loop [] max_child_depth = max_child_depth"
| "max_child_depth_loop (child # rest) max_child_depth =
     (let depth = get_tree_depth child in
      max_child_depth_loop rest (if depth > max_child_depth then depth else max_child_depth))"
  by pat_completeness auto

termination
proof -
  have less: "size_list size (dict_get (node_children node) []) < size node"
    for node :: LogicNode
    by (cases node) (auto simp: dict_get_def split: option.splits)
  show ?thesis
    by (relation "measure (\<lambda>x. case x of Inl node \<Rightarrow> size node
                                       | Inr (children, m) \<Rightarrow> size_list size children)")
       (auto simp: less)
qed

section \<open>Strings\<close>

text \<open>
  \<^verbatim>\<open>str(index)\<close> of a non-negative integer, as the f-string of line 69 formats the
  index that \<^verbatim>\<open>enumerate\<close> counts from 0: its decimal digits, most significant first,
  with no sign and no leading zero.
\<close>

definition digit_char :: "nat \<Rightarrow> char" where
  "digit_char d = char_of (48 + d)"

fun str_nat :: "nat \<Rightarrow> string" where
  "str_nat n = (if n < 10 then [digit_char n]
                else str_nat (n div 10) @ [digit_char (n mod 10)])"


text \<open>
  \<^verbatim>\<open>s.upper()\<close> maps every character of the string on its own and joins the results.
  An ASCII character is mapped by \<open>ascii_upper\<close>: the letters \<^verbatim>\<open>a\<close> to \<^verbatim>\<open>z\<close> become
  \<^verbatim>\<open>A\<close> to \<^verbatim>\<open>Z\<close> and every other ASCII character is kept. A character outside ASCII is
  mapped by the case table of the interpreter's Unicode database, to one character or to
  several (\<^verbatim>\<open>e\<close> with acute to \<^verbatim>\<open>E\<close> with acute, sharp s to \<^verbatim>\<open>SS\<close>). That table is not
  part of this program; it is the parameter \<open>case_table\<close> of \<open>upper\<close> and of the
  functions that call it, and every theorem below holds for every table.
\<close>

definition ascii_upper :: "char \<Rightarrow> char" where
  "ascii_upper c =
     (let n = (of_char c :: nat) in if 97 \<le> n \<and> n \<le> 122 then char_of (n - 32) else c)"

definition upper :: "(char \<Rightarrow> string) \<Rightarrow> string \<Rightarrow> string" where
  "upper case_table s =
     concat (map (\<lambda>c. if (of_char c :: nat) < 128 then [ascii_upper c] else case_table c) s)"

section \<open>Flattening a tree into nodes and edges\<close>

text \<open>
  The keyword arguments of the calls \<^verbatim>\<open>Node(id=, label=, size=, color=, title=)\<close> of
  lines 58-59 and \<^verbatim>\<open>Edge(source=, target=, color=)\<close> of line 63. The two classes
  belong to the graph library the program imports, not to the program: a record holds
  what the program passes to the constructor, and \<open>n_title\<close> is the \<^verbatim>\<open>title\<close> argument,
  which the library shows as the tooltip.
\<close>

record Node =
  n_id :: string
  n_label :: string
  n_size :: int
  n_color :: string
  n_title :: string

record Edge =
  e_source :: string
  e_target :: string
  e_color :: string

text \<open>
  \<^verbatim>\<open>get_agraph_data\<close> (lines 39-70) appends to the two lists it is given; the model
  passes the pair \<open>(nodes_list, edges_list)\<close> in and returns it updated; \<open>pfx\<close> is the
  parameter \<^verbatim>\<open>prefix\<close>. The argument
  \<open>parent_id\<close> is \<open>None\<close> (the default) or a string, and \<^verbatim>\<open>if parent_id:\<close> holds for
  a string that is not empty. The loop \<^verbatim>\<open>for index, child in enumerate(children)\<close> is
  \<open>agraph_children_loop\<close>, whose second argument is \<open>index\<close>.
\<close>

function get_agraph_data ::
    "(char \<Rightarrow> string) \<Rightarrow> LogicNode \<Rightarrow> Node list \<times> Edge list \<Rightarrow> string
       \<Rightarrow> string option \<Rightarrow> string \<Rightarrow> Node list \<times> Edge list"
  and agraph_children_loop ::
    "(char \<Rightarrow> string) \<Rightarrow> LogicNode list \<Rightarrow> nat \<Rightarrow> Node list \<times> Edge list \<Rightarrow> string
       \<Rightarrow> string \<Rightarrow> string \<Rightarrow> Node list \<times> Edge list" where
  "get_agraph_data case_table node (nodes_list, edges_list) pfx parent_id my_id_suffix =
     (let my_unique_id = pfx @ ''_'' @ my_id_suffix;
          relation = upper case_table (dict_get (node_relation node) ''span'');
          ntype = dict_get (node_type node) ''span'';
          color = (if ntype = ''leaf'' then ''#00C853'' else ''#2962FF'');
          label = (if ntype = ''leaf''
                   then (let full_text = dict_get (node_text node) [] in
                         if length full_text > 15 then take 15 full_text @ ''...''
                         else full_text)
                   else relation);
          size = (if ntype = ''leaf'' then 25 else 15);
          nodes_list = nodes_list @
            [\<lparr>n_id = my_unique_id, n_label = label, n_size = size, n_color = color,
              n_title = dict_get (node_text node) relation\<rparr>];
          edges_list = (case parent_id of
                          None \<Rightarrow> edges_list
                        | Some pid \<Rightarrow>
                            if pid \<noteq> [] then edges_list @
                              [\<lparr>e_source = pid, e_target = my_unique_id, e_color = ''#B0BEC5''\<rparr>]
                            else edges_list);
          children = dict_get (node_children node) []
      in agraph_children_loop case_table children 0 (nodes_list, edges_list) pfx my_unique_id
           my_id_suffix)"
| "agraph_children_loop case_table [] index acc pfx my_unique_id my_id_suffix = acc"
| "agraph_children_loop case_table (child # rest) index acc pfx my_unique_id my_id_suffix =
     (let child_suffix = my_id_suffix @ ''_'' @ str_nat index;
          acc = get_agraph_data case_table child acc pfx (Some my_unique_id) child_suffix
      in agraph_children_loop case_table rest (index + 1) acc pfx my_unique_id my_id_suffix)"
  by pat_completeness auto

termination
proof -
  have less: "size_list size (dict_get (node_children node) []) < size node"
    for node :: LogicNode
    by (cases node) (auto simp: dict_get_def split: option.splits)
  show ?thesis
    by (relation "measure (\<lambda>x. case x of Inl (tbl, node, args) \<Rightarrow> size node
                                       | Inr (tbl, children, args) \<Rightarrow> size_list size children)")
       (auto simp: less)
qed

text \<open>
  The call of lines 135-137 and 143-145: two fresh empty lists, the prefix, and the
  defaults \<^verbatim>\<open>parent_id=None\<close> and \<^verbatim>\<open>my_id_suffix="0"\<close>.
\<close>

definition flatten :: "(char \<Rightarrow> string) \<Rightarrow> LogicNode \<Rightarrow> string \<Rightarrow> Node list \<times> Edge list" where
  "flatten case_table node pfx = get_agraph_data case_table node ([], []) pfx None ''0''"

section \<open>Match score\<close>

text \<open>
  Lines 107-110 compute \<^verbatim>\<open>min(100, int((depth_comp / depth_ref) * 100))\<close> when
  \<^verbatim>\<open>depth_ref > 0\<close> and 0 otherwise. \<^verbatim>\<open>/\<close> on two Python integers is true division:
  its result is the binary64 number nearest to the exact quotient (ties to even), or
  \<^verbatim>\<open>OverflowError\<close> when that is out of range. The product with 100 is rounded to
  binary64 again, \<^verbatim>\<open>int\<close> truncates towards zero and raises \<^verbatim>\<open>OverflowError\<close> on an
  infinity. A finite binary64 value is modelled by the rational number it denotes.
\<close>

datatype py_error = ZeroDivisionError | OverflowError

text \<open>The power of two with an integer exponent.\<close>

definition pow2 :: "int \<Rightarrow> rat" where
  "pow2 k = (if k \<ge> 0 then 2 ^ nat k else 1 / 2 ^ nat (- k))"

text \<open>The binary exponent \<open>e\<close> of a positive rational \<open>x\<close>: \<open>pow2 e \<le> x < pow2 (e + 1)\<close>.\<close>

definition float_exponent :: "rat \<Rightarrow> int" where
  "float_exponent x =
     (let (n, d) = quotient_of x; k = bitlen n - bitlen d
      in if pow2 k \<le> x then k else k - 1)"

definition round_half_even :: "rat \<Rightarrow> int" where
  "round_half_even x =
     (let f = \<lfloor>x\<rfloor>; r = x - of_int f
      in if r < 1 / 2 then f else if r > 1 / 2 then f + 1 else if even f then f else f + 1)"

text \<open>
  Rounding to binary64: 53 significant bits, so the unit in the last place of a number
  with exponent \<open>e\<close> is \<open>pow2 (e - 52)\<close>; below \<open>pow2 (- 1022)\<close> the spacing stays that
  of the subnormal numbers. The callers compare the result with \<open>pow2 1024\<close> for overflow.
\<close>

definition round_double :: "rat \<Rightarrow> rat" where
  "round_double x =
     (if x = 0 then 0
      else let e = max (float_exponent \<bar>x\<bar>) (- 1022); ulp = pow2 (e - 52)
           in sgn x * of_int (round_half_even (\<bar>x\<bar> / ulp)) * ulp)"

datatype py_float = Finite rat | Infinite

text \<open>\<^verbatim>\<open>a / b\<close> on two integers.\<close>

definition int_truediv :: "int \<Rightarrow> int \<Rightarrow> py_error + py_float" where
  "int_truediv a b =
     (if b = 0 then Inl ZeroDivisionError
      else let q = round_double (of_int a / of_int b)
           in if \<bar>q\<bar> \<ge> pow2 1024 then Inl OverflowError else Inr (Finite q))"

text \<open>\<^verbatim>\<open>x * n\<close> for a float and an integer: the integer is converted, the product rounded.\<close>

definition float_mul_int :: "py_float \<Rightarrow> int \<Rightarrow> py_float" where
  "float_mul_int x n =
     (case x of
        Infinite \<Rightarrow> Infinite
      | Finite v \<Rightarrow> let p = round_double (v * round_double (of_int n))
                    in if \<bar>p\<bar> \<ge> pow2 1024 then Infinite else Finite p)"

text \<open>\<^verbatim>\<open>int(x)\<close> on a float.\<close>

definition py_int :: "py_float \<Rightarrow> py_error + int" where
  "py_int x = (case x of Infinite \<Rightarrow> Inl OverflowError
               | Finite v \<Rightarrow> Inr (if v \<ge> 0 then \<lfloor>v\<rfloor> else \<lceil>v\<rceil>))"

text \<open>The expression of line 108.\<close>

definition ratio_score :: "int \<Rightarrow> int \<Rightarrow> py_error + int" where
  "ratio_score depth_comp depth_ref =
     (case int_truediv depth_comp depth_ref of
        Inl e \<Rightarrow> Inl e
      | Inr q \<Rightarrow> (case py_int (float_mul_int q 100) of
                    Inl e \<Rightarrow> Inl e
                  | Inr n \<Rightarrow> Inr (min 100 n)))"

text \<open>Lines 107-110, with the guard on the reference depth.\<close>

definition match_score :: "int \<Rightarrow> int \<Rightarrow> py_error + int" where
  "match_score depth_comp depth_ref =
     (if depth_ref > 0 then ratio_score depth_comp depth_ref else Inr 0)"

section \<open>The nodes of a tree, in depth-first pre-order\<close>

text \<open>
  The nodes of a tree listed parent first, then the subtrees of its children from left
  to right, each node with its path: the zero-based child indices that lead to it from
  the root. The root has the empty path, and the parent of the node with path \<open>p\<close> has
  path \<open>butlast p\<close>.
\<close>

function preorder :: "LogicNode \<Rightarrow> (nat list \<times> LogicNode) list"
  and preorder_children :: "LogicNode list \<Rightarrow> nat \<Rightarrow> (nat list \<times> LogicNode) list" where
  "preorder node = ([], node) # preorder_children (dict_get (node_children node) []) 0"
| "preorder_children [] index = []"
| "preorder_children (child # rest) index =
     map (\<lambda>(path, n). (index # path, n)) (preorder child) @ preorder_children rest (index + 1)"
  by pat_completeness auto

termination
proof -
  have less: "size_list size (dict_get (node_children node) []) < size node"
    for node :: LogicNode
    by (cases node) (auto simp: dict_get_def split: option.splits)
  show ?thesis
    by (relation "measure (\<lambda>x. case x of Inl node \<Rightarrow> size node
                                       | Inr (children, index) \<Rightarrow> size_list size children)")
       (auto simp: less)
qed

text \<open>The number of nodes of a tree.\<close>

function count_nodes :: "LogicNode \<Rightarrow> nat"
  and count_children :: "LogicNode list \<Rightarrow> nat" where
  "count_nodes node = 1 + count_children (dict_get (node_children node) [])"
| "count_children [] = 0"
| "count_children (child # rest) = count_nodes child + count_children rest"
  by pat_completeness auto

termination
proof -
  have less: "size_list size (dict_get (node_children node) []) < size node"
    for node :: LogicNode
    by (cases node) (auto simp: dict_get_def split: option.splits)
  show ?thesis
    by (relation "measure (\<lambda>x. case x of Inl node \<Rightarrow> size node
                                       | Inr children \<Rightarrow> size_list size children)")
       (auto simp: less)
qed


text \<open>
  The identifier of the node with a given path below a node whose own suffix is \<open>s\<close>:
  every step of the path adds an underscore and the decimal index to the suffix, and the
  identifier is the prefix, an underscore and the suffix.
\<close>

definition path_enc :: "nat list \<Rightarrow> string" where
  "path_enc path = concat (map (\<lambda>i. ''_'' @ str_nat i) path)"

definition path_suffix :: "string \<Rightarrow> nat list \<Rightarrow> string" where
  "path_suffix s path = s @ path_enc path"

definition node_ident :: "string \<Rightarrow> string \<Rightarrow> nat list \<Rightarrow> string" where
  "node_ident pfx s path = pfx @ ''_'' @ path_suffix s path"

text \<open>
  The \<open>Node\<close> that lines 45-59 build for a LogicNode under a given identifier, and the
  \<open>Edge\<close> of line 63, written as functions of the node so that the output of a whole
  traversal can be stated.
\<close>

definition visual_node :: "(char \<Rightarrow> string) \<Rightarrow> string \<Rightarrow> LogicNode \<Rightarrow> Node" where
  "visual_node case_table ident node =
     \<lparr>n_id = ident,
      n_label = (if dict_get (node_type node) ''span'' = ''leaf''
                 then (if length (dict_get (node_text node) []) > 15
                       then take 15 (dict_get (node_text node) []) @ ''...''
                       else dict_get (node_text node) [])
                 else upper case_table (dict_get (node_relation node) ''span'')),
      n_size = (if dict_get (node_type node) ''span'' = ''leaf'' then 25 else 15),
      n_color = (if dict_get (node_type node) ''span'' = ''leaf'' then ''#00C853'' else ''#2962FF''),
      n_title = (case node_text node of Some t \<Rightarrow> t
                 | None \<Rightarrow> upper case_table (dict_get (node_relation node) ''span''))\<rparr>"

definition visual_edge :: "string \<Rightarrow> string \<Rightarrow> Edge" where
  "visual_edge parent child = \<lparr>e_source = parent, e_target = child, e_color = ''#B0BEC5''\<rparr>"

definition parent_edge :: "string option \<Rightarrow> string \<Rightarrow> Edge list" where
  "parent_edge parent_id ident =
     (case parent_id of None \<Rightarrow> [] | Some pid \<Rightarrow> if pid \<noteq> [] then [visual_edge pid ident] else [])"

definition path_node ::
    "(char \<Rightarrow> string) \<Rightarrow> string \<Rightarrow> string \<Rightarrow> nat list \<times> LogicNode \<Rightarrow> Node" where
  "path_node case_table pfx s = (\<lambda>(path, n). visual_node case_table (node_ident pfx s path) n)"

definition path_edge :: "string \<Rightarrow> string \<Rightarrow> nat list \<times> LogicNode \<Rightarrow> Edge" where
  "path_edge pfx s = (\<lambda>(path, n). visual_edge (node_ident pfx s (butlast path)) (node_ident pfx s path))"

section \<open>Example inputs\<close>

text \<open>
  A case table that keeps every character outside ASCII as it is. It stands for the
  table wherever a theorem is evaluated on a concrete input; the texts of those inputs
  are ASCII, so the table is never consulted there.
\<close>

definition keep_case :: "char \<Rightarrow> string" where
  "keep_case c = [c]"

text \<open>
  A chain of \<open>n\<close> internal nodes, each with one child, above one leaf: the tree the
  parser returns for a text whose relations nest \<open>n\<close> levels deep.
\<close>

fun nested_spans :: "nat \<Rightarrow> LogicNode" where
  "nested_spans 0 = LogicNode (Some ''leaf'') None (Some ''A'') None"
| "nested_spans (Suc n) =
     LogicNode (Some ''span'') (Some ''cause'') None (Some [nested_spans n])"

section \<open>Properties of the depth computation\<close>

declare get_tree_depth.simps [simp del]
declare get_agraph_data.simps [simp del]
declare preorder.simps [simp del]
declare count_nodes.simps [simp del]
declare str_nat.simps [simp del]

lemma max_child_depth_loop_ge: "m \<le> max_child_depth_loop cs m"
proof (induction cs arbitrary: m)
  case Nil
  show ?case by simp
next
  case (Cons c cs)
  have "m \<le> (if get_tree_depth c > m then get_tree_depth c else m)" by simp
  also have "\<dots> \<le> max_child_depth_loop cs (if get_tree_depth c > m then get_tree_depth c else m)"
    by (rule Cons.IH)
  finally show ?case by (simp add: Let_def)
qed

lemma get_tree_depth_ge_1: "1 \<le> get_tree_depth node"
  using max_child_depth_loop_ge [of 0 "dict_get (node_children node) []"]
  by (simp add: get_tree_depth.simps [of node] Let_def)

lemma max_child_depth_loop_fold:
  "max_child_depth_loop cs m = fold max (map get_tree_depth cs) m"
  by (induction cs arbitrary: m) (simp_all add: Let_def max_def not_less)

lemma max_child_depth_loop_Max:
  "max_child_depth_loop cs m = Max (insert m (get_tree_depth ` set cs))"
  using Max.set_eq_fold [of m "map get_tree_depth cs"]
  by (simp add: max_child_depth_loop_fold)

lemma Max_depths_ge_1:
  assumes "cs \<noteq> []"
  shows "1 \<le> Max (get_tree_depth ` set cs)"
proof -
  have "Max (get_tree_depth ` set cs) \<in> get_tree_depth ` set cs"
    using assms by (intro Max_in) auto
  then obtain c where "Max (get_tree_depth ` set cs) = get_tree_depth c" by auto
  then show ?thesis by (simp add: get_tree_depth_ge_1)
qed

lemma get_tree_depth_LogicNode:
  "get_tree_depth (LogicNode t_type t_rel t_text ch) =
     (if t_type = Some ''leaf'' then 1
      else if dict_get ch [] = [] then 1
      else 1 + max_child_depth_loop (dict_get ch []) 0)"
  by (simp add: get_tree_depth.simps [of "LogicNode t_type t_rel t_text ch"] Let_def)

lemma get_tree_depth_nested_spans: "get_tree_depth (nested_spans n) = int n + 1"
  by (induction n) (simp_all add: get_tree_depth_LogicNode dict_get_def Let_def)

section \<open>The output of a traversal\<close>

lemma path_suffix_Nil: "path_suffix s [] = s"
  by (simp add: path_suffix_def path_enc_def)

lemma path_suffix_Cons: "path_suffix s (i # path) = path_suffix (s @ ''_'' @ str_nat i) path"
  by (simp add: path_suffix_def path_enc_def)

lemma preorder_children_nonempty: "(path, n) \<in> set (preorder_children cs i) \<Longrightarrow> path \<noteq> []"
  by (induction cs arbitrary: i) auto

lemma path_node_Cons:
  "map (path_node tbl pfx s) (map (\<lambda>(path, n). (i # path, n)) xs)
     = map (path_node tbl pfx (s @ ''_'' @ str_nat i)) xs"
  by (simp add: path_node_def node_ident_def path_suffix_Cons split_def)

lemma path_edge_Cons:
  assumes "\<And>path n. (path, n) \<in> set xs \<Longrightarrow> path \<noteq> []"
  shows "map (path_edge pfx s) (map (\<lambda>(path, n). (i # path, n)) xs)
     = map (path_edge pfx (s @ ''_'' @ str_nat i)) xs"
  using assms by (auto simp: path_edge_def node_ident_def path_suffix_Cons split_def)

lemma get_agraph_data_step:
  "get_agraph_data tbl node (ns, es) pfx parent_id s =
     agraph_children_loop tbl (dict_get (node_children node) []) 0
       (ns @ [visual_node tbl (pfx @ ''_'' @ s) node], es @ parent_edge parent_id (pfx @ ''_'' @ s))
       pfx (pfx @ ''_'' @ s) s"
  by (simp add: get_agraph_data.simps Let_def visual_node_def parent_edge_def visual_edge_def dict_get_def
           split: option.splits)

lemma agraph_children_loop_preorder:
  assumes "\<And>c acc parent_id s'. c \<in> set cs \<Longrightarrow>
     get_agraph_data tbl c acc pfx parent_id s' =
       (fst acc @ map (path_node tbl pfx s') (preorder c),
        snd acc @ parent_edge parent_id (pfx @ ''_'' @ s')
          @ map (path_edge pfx s') (preorder_children (dict_get (node_children c) []) 0))"
  shows "agraph_children_loop tbl cs i acc pfx (pfx @ ''_'' @ s) s =
     (fst acc @ map (path_node tbl pfx s) (preorder_children cs i),
      snd acc @ map (path_edge pfx s) (preorder_children cs i))"
  using assms
proof (induction cs arbitrary: i acc)
  case Nil
  show ?case by simp
next
  case (Cons c cs)
  let ?kids = "preorder_children (dict_get (node_children c) []) 0"
  have nonempty: "\<And>path n. (path, n) \<in> set ?kids \<Longrightarrow> path \<noteq> []"
    by (rule preorder_children_nonempty)
  have child_edges: "map (path_edge pfx s) (map (\<lambda>(path, n). (i # path, n)) (preorder c))
        = parent_edge (Some (pfx @ ''_'' @ s)) (pfx @ ''_'' @ s @ ''_'' @ str_nat i)
          @ map (path_edge pfx (s @ ''_'' @ str_nat i)) ?kids"
    using path_edge_Cons [of ?kids pfx s i, OF nonempty]
    by (simp add: preorder.simps [of c] parent_edge_def path_edge_def node_ident_def
          path_suffix_Nil path_suffix_Cons)
  have step: "get_agraph_data tbl c acc pfx (Some (pfx @ ''_'' @ s)) (s @ ''_'' @ str_nat i) =
       (fst acc @ map (path_node tbl pfx s) (map (\<lambda>(path, n). (i # path, n)) (preorder c)),
        snd acc @ map (path_edge pfx s) (map (\<lambda>(path, n). (i # path, n)) (preorder c)))"
    unfolding child_edges path_node_Cons
    using Cons.prems [of c acc "Some (pfx @ ''_'' @ s)" "s @ ''_'' @ str_nat i"] by simp
  have rest: "agraph_children_loop tbl cs (i + 1) acc' pfx (pfx @ ''_'' @ s) s =
     (fst acc' @ map (path_node tbl pfx s) (preorder_children cs (i + 1)),
      snd acc' @ map (path_edge pfx s) (preorder_children cs (i + 1)))" for acc'
    by (rule Cons.IH) (simp add: Cons.prems)
  show ?case
    unfolding agraph_children_loop.simps Let_def step rest
    by (simp del: map_map)
qed

lemma get_agraph_data_preorder:
  "get_agraph_data tbl node acc pfx parent_id s =
     (fst acc @ map (path_node tbl pfx s) (preorder node),
      snd acc @ parent_edge parent_id (pfx @ ''_'' @ s)
        @ map (path_edge pfx s) (preorder_children (dict_get (node_children node) []) 0))"
proof (induction node arbitrary: acc parent_id s)
  case (LogicNode t_type t_rel t_text ch)
  let ?node = "LogicNode t_type t_rel t_text ch"
  have kids: "agraph_children_loop tbl (dict_get ch []) 0 acc' pfx (pfx @ ''_'' @ s) s =
     (fst acc' @ map (path_node tbl pfx s) (preorder_children (dict_get ch []) 0),
      snd acc' @ map (path_edge pfx s) (preorder_children (dict_get ch []) 0))" for acc'
  proof (rule agraph_children_loop_preorder)
    fix c acc parent_id s'
    assume "c \<in> set (dict_get ch [])"
    then have "\<exists>cs. cs \<in> set_option ch \<and> c \<in> set cs"
      by (cases ch) (auto simp: dict_get_def)
    then show "get_agraph_data tbl c acc pfx parent_id s' =
       (fst acc @ map (path_node tbl pfx s') (preorder c),
        snd acc @ parent_edge parent_id (pfx @ ''_'' @ s')
          @ map (path_edge pfx s') (preorder_children (dict_get (node_children c) []) 0))"
      using LogicNode.IH by blast
  qed
  obtain ns es where acc: "acc = (ns, es)" by (cases acc)
  show ?case
    unfolding acc get_agraph_data_step LogicNode.sel kids
    by (simp add: preorder.simps [of ?node] path_node_def node_ident_def path_suffix_Nil)
qed

lemma flatten_preorder:
  "flatten tbl node pfx =
     (map (path_node tbl pfx ''0'') (preorder node),
      map (path_edge pfx ''0'') (tl (preorder node)))"
  by (simp add: flatten_def get_agraph_data_preorder parent_edge_def preorder.simps [of node])

section \<open>Identifiers are injective in the path\<close>

lemma of_char_digit_char: "d < 10 \<Longrightarrow> of_char (digit_char d) = (48 + d :: nat)"
  by (simp add: digit_char_def)

lemma digit_char_neq_underscore: "d < 10 \<Longrightarrow> digit_char d \<noteq> CHR ''_''"
proof
  assume "d < 10" and "digit_char d = CHR ''_''"
  then have "(48 + d :: nat) = of_char (CHR ''_'')"
    using of_char_digit_char [of d] by simp
  with \<open>d < 10\<close> show False by simp
qed

lemma digit_char_inj: "d < 10 \<Longrightarrow> e < 10 \<Longrightarrow> digit_char d = digit_char e \<Longrightarrow> d = e"
proof -
  assume d: "d < 10" and e: "e < 10" and eq: "digit_char d = digit_char e"
  have "(of_char (digit_char d) :: nat) = of_char (digit_char e)"
    by (simp only: eq)
  then have "48 + d = 48 + e"
    by (simp only: of_char_digit_char [OF d] of_char_digit_char [OF e])
  then show "d = e" by simp
qed

lemma str_nat_nonempty: "str_nat n \<noteq> []"
  by (subst str_nat.simps) simp

lemma str_nat_no_underscore: "CHR ''_'' \<notin> set (str_nat n)"
proof (induction n rule: str_nat.induct)
  case (1 n)
  show ?case
  proof (cases "n < 10")
    case True
    then show ?thesis
      using digit_char_neq_underscore [of n] by (subst str_nat.simps) auto
  next
    case False
    have "n mod 10 < 10" by simp
    then have "digit_char (n mod 10) \<noteq> CHR ''_''" by (rule digit_char_neq_underscore)
    with False "1.IH" show ?thesis by (subst str_nat.simps) auto
  qed
qed

lemma str_nat_inj: "str_nat n = str_nat m \<Longrightarrow> n = m"
proof (induction n arbitrary: m rule: str_nat.induct)
  case (1 n)
  show ?case
  proof (cases "n < 10")
    case n: True
    show ?thesis
    proof (cases "m < 10")
      case True
      with n "1.prems" show ?thesis
        by (simp add: str_nat.simps [of n] str_nat.simps [of m] digit_char_inj)
    next
      case False
      with n "1.prems" str_nat_nonempty [of "m div 10"] show ?thesis
        by (simp add: str_nat.simps [of n] str_nat.simps [of m])
    qed
  next
    case n: False
    show ?thesis
    proof (cases "m < 10")
      case True
      with n "1.prems" str_nat_nonempty [of "n div 10"] show ?thesis
        by (simp add: str_nat.simps [of n] str_nat.simps [of m])
    next
      case False
      with n "1.prems" have eq: "str_nat (n div 10) = str_nat (m div 10)"
        and d: "digit_char (n mod 10) = digit_char (m mod 10)"
        by (simp_all add: str_nat.simps [of n] str_nat.simps [of m])
      from eq have "n div 10 = m div 10" using "1.IH" n by simp
      moreover from d have "n mod 10 = m mod 10" by (intro digit_char_inj) simp_all
      ultimately show ?thesis by (metis div_mult_mod_eq)
    qed
  qed
qed

lemma path_suffix_enc: "path_suffix s path = s @ path_enc path"
  by (simp add: path_suffix_def)

lemma path_enc_Cons: "path_enc (i # path) = CHR ''_'' # str_nat i @ path_enc path"
  by (simp add: path_enc_def)

lemma takeWhile_path_enc: "takeWhile (\<lambda>c. c \<noteq> CHR ''_'') (path_enc path) = []"
  by (cases path) (simp_all add: path_enc_def)

lemma takeWhile_str_nat_enc:
  "takeWhile (\<lambda>c. c \<noteq> CHR ''_'') (str_nat i @ path_enc path) = str_nat i"
proof -
  have "\<And>c. c \<in> set (str_nat i) \<Longrightarrow> c \<noteq> CHR ''_''"
    using str_nat_no_underscore [of i] by auto
  then show ?thesis
    by (simp add: takeWhile_append2 takeWhile_path_enc)
qed

lemma path_enc_inj: "path_enc p = path_enc q \<Longrightarrow> p = q"
proof (induction p arbitrary: q)
  case Nil
  then show ?case by (cases q) (simp_all add: path_enc_def)
next
  case (Cons i p)
  show ?case
  proof (cases q)
    case Nil
    with Cons.prems show ?thesis by (simp add: path_enc_def)
  next
    case (Cons j q')
    with Cons.prems have eq: "str_nat i @ path_enc p = str_nat j @ path_enc q'"
      by (simp add: path_enc_Cons)
    then have "takeWhile (\<lambda>c. c \<noteq> CHR ''_'') (str_nat i @ path_enc p)
             = takeWhile (\<lambda>c. c \<noteq> CHR ''_'') (str_nat j @ path_enc q')"
      by (simp only:)
    then have s: "str_nat i = str_nat j"
      by (simp only: takeWhile_str_nat_enc)
    then have "i = j" by (rule str_nat_inj)
    moreover from eq s have "path_enc p = path_enc q'" by simp
    then have "p = q'" by (rule Cons.IH)
    ultimately show ?thesis using Cons by simp
  qed
qed

lemma node_ident_inj: "node_ident pfx s p = node_ident pfx s q \<Longrightarrow> p = q"
  by (simp add: node_ident_def path_suffix_enc path_enc_inj)

lemma preorder_children_hd_ge:
  "(path, n) \<in> set (preorder_children cs i) \<Longrightarrow> \<exists>j rest. path = j # rest \<and> i \<le> j"
proof (induction cs arbitrary: i)
  case Nil
  then show ?case by simp
next
  case (Cons c cs)
  from Cons.prems consider "\<exists>p. path = i # p" | "(path, n) \<in> set (preorder_children cs (i + 1))"
    by auto
  then show ?case
  proof cases
    case 1
    then show ?thesis by auto
  next
    case 2
    from Cons.IH [OF 2] show ?thesis by auto
  qed
qed

lemma distinct_preorder_children:
  assumes "\<And>c. c \<in> set cs \<Longrightarrow> distinct (map fst (preorder c))"
  shows "distinct (map fst (preorder_children cs i))"
  using assms
proof (induction cs arbitrary: i)
  case Nil
  show ?case by simp
next
  case (Cons c cs)
  have fst_eq: "map fst (map (\<lambda>(path, n). (i # path, n)) (preorder c))
              = map ((#) i) (map fst (preorder c))"
    by (simp add: split_def)
  have d1: "distinct (map ((#) i) (map fst (preorder c)))"
  proof -
    have "distinct (map fst (preorder c))" by (rule Cons.prems) simp
    moreover have "inj_on ((#) i) (set (map fst (preorder c)))" by (rule inj_onI) simp
    ultimately show ?thesis by (subst distinct_map) (simp only: simp_thms)
  qed
  have d2: "distinct (map fst (preorder_children cs (i + 1)))"
    by (rule Cons.IH) (simp add: Cons.prems)
  have disj: "set (map ((#) i) (map fst (preorder c))) \<inter> set (map fst (preorder_children cs (i + 1))) = {}"
  proof (rule ccontr)
    assume "\<not> ?thesis"
    then obtain path where "path \<in> set (map ((#) i) (map fst (preorder c)))"
      and "path \<in> set (map fst (preorder_children cs (i + 1)))" by blast
    then obtain p n where "path = i # p" and "(path, n) \<in> set (preorder_children cs (i + 1))"
      by auto
    with preorder_children_hd_ge [of path n cs "i + 1"] show False by auto
  qed
  show ?case
    unfolding preorder_children.simps map_append fst_eq
    using d1 d2 disj by (simp only: distinct_append simp_thms)
qed

lemma distinct_preorder: "distinct (map fst (preorder node))"
proof (induction node)
  case (LogicNode t_type t_rel t_text ch)
  let ?node = "LogicNode t_type t_rel t_text ch"
  have "distinct (map fst (preorder_children (dict_get ch []) 0))"
  proof (rule distinct_preorder_children)
    fix c assume "c \<in> set (dict_get ch [])"
    then have "\<exists>cs. cs \<in> set_option ch \<and> c \<in> set cs"
      by (cases ch) (auto simp: dict_get_def)
    then show "distinct (map fst (preorder c))" using LogicNode.IH by blast
  qed
  moreover have "[] \<notin> set (map fst (preorder_children (dict_get ch []) 0))"
    using preorder_children_nonempty by fastforce
  ultimately show ?case
    by (simp add: preorder.simps [of ?node])
qed

lemma n_id_path_node: "map n_id (map (path_node tbl pfx s) xs) = map (node_ident pfx s) (map fst xs)"
  by (simp add: path_node_def visual_node_def split_def)

lemma overlap_underscore_zero:
  assumes "us @ ''_0'' @ x = ''_0'' @ y"
  shows "us = [] \<or> prefix ''_0'' us"
proof (cases us)
  case Nil
  then show ?thesis by simp
next
  case (Cons c us')
  show ?thesis
  proof (cases us')
    case Nil
    with Cons assms show ?thesis by simp
  next
    case (Cons d us'')
    with \<open>us = c # us'\<close> assms show ?thesis by simp
  qed
qed

lemma ident_clash:
  assumes "p @ ''_0'' @ x = q @ ''_0'' @ y"
  shows "p = q \<or> prefix (p @ ''_0'') q \<or> prefix (q @ ''_0'') p"
proof -
  from assms obtain us where
    "(p = q @ us \<and> us @ ''_0'' @ x = ''_0'' @ y) \<or> (p @ us = q \<and> ''_0'' @ x = us @ ''_0'' @ y)"
    using append_eq_append_conv2 [of p "''_0'' @ x" q "''_0'' @ y"] by blast
  then show ?thesis
  proof
    assume a: "p = q @ us \<and> us @ ''_0'' @ x = ''_0'' @ y"
    then have "us @ ''_0'' @ x = ''_0'' @ y" by simp
    then have "us = [] \<or> prefix ''_0'' us" by (rule overlap_underscore_zero)
    with a show ?thesis by (auto simp: prefix_def)
  next
    assume b: "p @ us = q \<and> ''_0'' @ x = us @ ''_0'' @ y"
    then have "us @ ''_0'' @ y = ''_0'' @ x" by simp
    then have "us = [] \<or> prefix ''_0'' us" by (rule overlap_underscore_zero)
    with b show ?thesis by (auto simp: prefix_def)
  qed
qed

lemma node_ident_0: "node_ident pfx ''0'' path = pfx @ ''_0'' @ path_enc path"
  by (simp add: node_ident_def path_suffix_enc)

section \<open>Counting nodes and edges\<close>

lemma length_preorder_children:
  assumes "\<And>c. c \<in> set cs \<Longrightarrow> length (preorder c) = count_nodes c"
  shows "length (preorder_children cs i) = count_children cs"
  using assms by (induction cs arbitrary: i) simp_all

lemma length_preorder: "length (preorder node) = count_nodes node"
proof (induction node)
  case (LogicNode t_type t_rel t_text ch)
  let ?node = "LogicNode t_type t_rel t_text ch"
  have "length (preorder_children (dict_get ch []) 0) = count_children (dict_get ch [])"
  proof (rule length_preorder_children)
    fix c assume "c \<in> set (dict_get ch [])"
    then have "\<exists>cs. cs \<in> set_option ch \<and> c \<in> set cs"
      by (cases ch) (auto simp: dict_get_def)
    then show "length (preorder c) = count_nodes c" using LogicNode.IH by blast
  qed
  then show ?case
    by (simp add: preorder.simps [of ?node] count_nodes.simps [of ?node])
qed

lemma length_preorder_children_count: "length (preorder_children cs i) = count_children cs"
  by (rule length_preorder_children) (rule length_preorder)

lemma e_target_path_edge:
  "map e_target (map (path_edge pfx s) xs) = map (node_ident pfx s) (map fst xs)"
  by (simp add: path_edge_def visual_edge_def split_def)


lemma title_default:
  "dict_get (node_text n) (upper tbl (dict_get (node_relation n) ''span'')) =
     (case node_text n of Some t \<Rightarrow> t | None \<Rightarrow> upper tbl (dict_get (node_relation n) ''span''))"
  by (cases "node_text n") (simp_all add: dict_get_def)

lemma root_in_preorder: "([], node) \<in> set (preorder node)"
  by (simp add: preorder.simps [of node])

lemma child_in_preorder_children:
  "i < length cs \<Longrightarrow> ([k + i], cs ! i) \<in> set (preorder_children cs k)"
proof (induction cs arbitrary: k i)
  case Nil
  then show ?case by simp
next
  case (Cons c cs)
  show ?case
  proof (cases i)
    case 0
    have "([k], c) \<in> (\<lambda>(path, n). (k # path, n)) ` set (preorder c)"
      using root_in_preorder [of c] by force
    with 0 show ?thesis by simp
  next
    case (Suc j)
    with Cons.prems have "j < length cs" by simp
    from Cons.IH [OF this, of "k + 1"] Suc show ?thesis by simp
  qed
qed

lemma count_nodes_pos: "0 < count_nodes node"
  by (simp add: count_nodes.simps [of node])

lemma count_children_pos: "cs \<noteq> [] \<Longrightarrow> 0 < count_children cs"
  using count_nodes_pos by (cases cs) simp_all



section \<open>The claims\<close>

text \<open>
  C1. \<open>get_tree_depth\<close> satisfies the recursion of the specification: a node whose type
  is \<^verbatim>\<open>"leaf"\<close> has depth 1 whatever its children are; otherwise a node whose children
  sequence is empty (or absent) has depth 1; otherwise the depth is 1 plus the greatest
  depth among the children.
\<close>

theorem get_tree_depth_recursion:
  "get_tree_depth node =
     (if node_type node = Some ''leaf'' then 1
      else if dict_get (node_children node) [] = [] then 1
      else 1 + Max (get_tree_depth ` set (dict_get (node_children node) [])))"
proof -
  have "Max (insert 0 (get_tree_depth ` set cs)) = Max (get_tree_depth ` set cs)"
    if "cs \<noteq> []" for cs
    using that Max_depths_ge_1 [OF that] by (simp add: max_def)
  then show ?thesis
    by (simp add: get_tree_depth.simps [of node] Let_def max_child_depth_loop_Max)
qed

text \<open>
  C2, as stated, fails: the prefixes \<^verbatim>\<open>a\<close> and \<^verbatim>\<open>a_0\<close> are distinct, and the child of
  the root of a tree flattened with \<^verbatim>\<open>a\<close> gets the identifier \<^verbatim>\<open>a_0_0\<close>, which is also
  the identifier of the root of any tree flattened with \<^verbatim>\<open>a_0\<close>.
\<close>

theorem flatten_prefix_collision:
  "''a'' \<noteq> ''a_0'' \<and>
   ''a_0_0'' \<in>
     set (map n_id (fst (flatten keep_case (LogicNode (Some ''span'') (Some ''cause'') None
            (Some [LogicNode (Some ''leaf'') None (Some ''A'') None])) ''a'')))
     \<inter> set (map n_id (fst (flatten keep_case (LogicNode (Some ''leaf'') None (Some ''B'') None) ''a_0'')))"
  by code_simp

text \<open>
  C2, amended. For two distinct prefixes of which neither is the other one extended by
  a text that starts with \<^verbatim>\<open>_0\<close> (so for any two distinct prefixes without an
  underscore, such as \<^verbatim>\<open>ref\<close> and \<^verbatim>\<open>comp\<close>), the identifiers produced by flattening one
  tree with the first prefix and another tree with the second are disjoint.
\<close>

theorem flatten_ids_disjoint:
  assumes "p \<noteq> q" and "\<not> prefix (p @ ''_0'') q" and "\<not> prefix (q @ ''_0'') p"
  shows "set (map n_id (fst (flatten tbl t1 p))) \<inter> set (map n_id (fst (flatten tbl t2 q))) = {}"
proof (rule ccontr)
  assume "\<not> ?thesis"
  then obtain i where i1: "i \<in> set (map n_id (fst (flatten tbl t1 p)))"
    and i2: "i \<in> set (map n_id (fst (flatten tbl t2 q)))" by blast
  from i1 obtain path1 where "i = node_ident p ''0'' path1"
    unfolding flatten_preorder fst_conv n_id_path_node by auto
  moreover from i2 obtain path2 where "i = node_ident q ''0'' path2"
    unfolding flatten_preorder fst_conv n_id_path_node by auto
  ultimately have "node_ident p ''0'' path1 = node_ident q ''0'' path2" by simp
  then have "p @ ''_0'' @ path_enc path1 = q @ ''_0'' @ path_enc path2"
    by (simp only: node_ident_0)
  from ident_clash [OF this] assms show False by simp
qed

theorem flatten_ids_disjoint_witness:
  "''ref'' \<noteq> ''comp'' \<and> \<not> prefix (''ref'' @ ''_0'') ''comp''
   \<and> \<not> prefix (''comp'' @ ''_0'') ''ref''
   \<and> set (map n_id (fst (flatten keep_case (LogicNode (Some ''span'') (Some ''cause'') None
            (Some [LogicNode (Some ''leaf'') None (Some ''A'') None])) ''ref'')))
     \<inter> set (map n_id (fst (flatten keep_case (LogicNode (Some ''leaf'') None (Some ''B'') None) ''comp'')))
     = {}"
  using flatten_ids_disjoint [of "''ref''" "''comp''" keep_case
      "LogicNode (Some ''span'') (Some ''cause'') None
         (Some [LogicNode (Some ''leaf'') None (Some ''A'') None])"
      "LogicNode (Some ''leaf'') None (Some ''B'') None"]
  by simp

text \<open>
  C3. In one flattening pass the identifier of every node is the prefix, an underscore,
  \<^verbatim>\<open>0\<close> for the root and then an underscore and the zero-based child index for every
  step of the path from the root; the identifiers of one pass are pairwise distinct, and
  the assignment of identifiers to paths is injective.
\<close>

theorem flatten_ids_distinct:
  "map n_id (fst (flatten tbl node pfx)) = map (node_ident pfx ''0'') (map fst (preorder node))
   \<and> distinct (map n_id (fst (flatten tbl node pfx)))
   \<and> inj (node_ident pfx ''0'')
   \<and> node_ident pfx ''0'' [] = pfx @ ''_0''
   \<and> node_ident pfx ''0'' (path @ [i]) = node_ident pfx ''0'' path @ ''_'' @ str_nat i"
proof -
  have inj: "inj (node_ident pfx ''0'')"
    by (rule injI) (rule node_ident_inj)
  have ids: "map n_id (fst (flatten tbl node pfx)) = map (node_ident pfx ''0'') (map fst (preorder node))"
    by (simp only: flatten_preorder fst_conv n_id_path_node)
  have "distinct (map (node_ident pfx ''0'') (map fst (preorder node)))"
    using inj distinct_preorder [of node] by (simp only: distinct_map) (auto intro: inj_on_subset)
  moreover have "node_ident pfx ''0'' [] = pfx @ ''_0''"
    by (simp add: node_ident_def path_suffix_def path_enc_def)
  moreover have "node_ident pfx ''0'' (path @ [i]) = node_ident pfx ''0'' path @ ''_'' @ str_nat i"
    by (simp add: node_ident_def path_suffix_def path_enc_def)
  ultimately show ?thesis using ids inj by simp
qed

text \<open>
  C4. One flattening pass emits one node per node of the tree and one edge per node
  other than the root, so one edge less than nodes; the edges are, in pre-order, those
  from the identifier of the parent to the identifier of the child, and no path occurs
  twice.
\<close>

theorem flatten_node_and_edge_count:
  "length (fst (flatten tbl node pfx)) = count_nodes node
   \<and> length (snd (flatten tbl node pfx)) + 1 = count_nodes node
   \<and> map n_id (fst (flatten tbl node pfx)) = map (node_ident pfx ''0'') (map fst (preorder node))
   \<and> snd (flatten tbl node pfx) =
       map (\<lambda>path. \<lparr>e_source = node_ident pfx ''0'' (butlast path),
                     e_target = node_ident pfx ''0'' path, e_color = ''#B0BEC5''\<rparr>)
         (tl (map fst (preorder node)))
   \<and> distinct (map fst (preorder node))"
proof -
  have "length (fst (flatten tbl node pfx)) = count_nodes node"
    by (simp add: flatten_preorder length_preorder)
  moreover have "length (snd (flatten tbl node pfx)) + 1 = count_nodes node"
    using length_preorder [of node] by (simp add: flatten_preorder preorder.simps [of node])
  moreover have "map n_id (fst (flatten tbl node pfx)) = map (node_ident pfx ''0'') (map fst (preorder node))"
    by (simp only: flatten_preorder fst_conv n_id_path_node)
  moreover have "snd (flatten tbl node pfx) =
       map (\<lambda>path. \<lparr>e_source = node_ident pfx ''0'' (butlast path),
                     e_target = node_ident pfx ''0'' path, e_color = ''#B0BEC5''\<rparr>)
         (tl (map fst (preorder node)))"
    by (simp add: flatten_preorder path_edge_def visual_edge_def split_def map_tl comp_def)
  ultimately show ?thesis using distinct_preorder [of node] by simp
qed

text \<open>
  C5. For a node whose type is \<^verbatim>\<open>"leaf"\<close> and whose children sequence is not empty, the
  depth is 1, while the flattening still emits a node and an edge for every child and
  descends into the children: it emits one node for the leaf and one for every node
  below it, and one edge for every node below it.
\<close>

theorem leaf_with_children_asymmetry:
  assumes "node_type node = Some ''leaf''" and "node_children node = Some cs" and "cs \<noteq> []"
  shows "get_tree_depth node = 1
    \<and> length (fst (flatten tbl node pfx)) = 1 + count_children cs
    \<and> length (snd (flatten tbl node pfx)) = count_children cs
    \<and> 0 < count_children cs
    \<and> (\<forall>i<length cs.
          node_ident pfx ''0'' [i] \<in> set (map n_id (fst (flatten tbl node pfx)))
          \<and> \<lparr>e_source = node_ident pfx ''0'' [], e_target = node_ident pfx ''0'' [i],
              e_color = ''#B0BEC5''\<rparr> \<in> set (snd (flatten tbl node pfx)))"
proof -
  have kids: "dict_get (node_children node) [] = cs"
    using assms(2) by (simp add: dict_get_def)
  have pre: "preorder node = ([], node) # preorder_children cs 0"
    by (simp add: preorder.simps [of node] kids)
  have depth: "get_tree_depth node = 1"
    using assms(1) by (simp add: get_tree_depth.simps [of node])
  have nodes: "length (fst (flatten tbl node pfx)) = 1 + count_children cs"
    by (simp add: flatten_preorder pre length_preorder_children_count)
  have edges: "length (snd (flatten tbl node pfx)) = count_children cs"
    by (simp add: flatten_preorder pre length_preorder_children_count)
  have each: "node_ident pfx ''0'' [i] \<in> set (map n_id (fst (flatten tbl node pfx)))
          \<and> \<lparr>e_source = node_ident pfx ''0'' [], e_target = node_ident pfx ''0'' [i],
              e_color = ''#B0BEC5''\<rparr> \<in> set (snd (flatten tbl node pfx))"
    if "i < length cs" for i
  proof -
    from that have mem: "([i], cs ! i) \<in> set (preorder_children cs 0)"
      using child_in_preorder_children [of i cs 0] by simp
    then have "node_ident pfx ''0'' (fst ([i], cs ! i))
        \<in> set (map (node_ident pfx ''0'') (map fst (preorder node)))"
      unfolding pre by force
    then have a: "node_ident pfx ''0'' [i] \<in> set (map n_id (fst (flatten tbl node pfx)))"
      by (simp only: flatten_preorder fst_conv n_id_path_node)
    have "path_edge pfx ''0'' ([i], cs ! i) \<in> set (map (path_edge pfx ''0'') (preorder_children cs 0))"
      using mem by (simp only: set_map) (rule imageI)
    then have b: "\<lparr>e_source = node_ident pfx ''0'' [], e_target = node_ident pfx ''0'' [i],
              e_color = ''#B0BEC5''\<rparr> \<in> set (snd (flatten tbl node pfx))"
      by (simp add: flatten_preorder pre path_edge_def visual_edge_def)
    from a b show ?thesis by (rule conjI)
  qed
  from depth nodes edges count_children_pos [OF assms(3)] each show ?thesis by blast
qed

theorem leaf_with_children_asymmetry_witness:
  "get_tree_depth (LogicNode (Some ''leaf'') None (Some ''A'')
       (Some [LogicNode (Some ''leaf'') None (Some ''B'') None])) = 1
   \<and> length (fst (flatten keep_case (LogicNode (Some ''leaf'') None (Some ''A'')
       (Some [LogicNode (Some ''leaf'') None (Some ''B'') None])) ''x'')) = 2
   \<and> length (snd (flatten keep_case (LogicNode (Some ''leaf'') None (Some ''A'')
       (Some [LogicNode (Some ''leaf'') None (Some ''B'') None])) ''x'')) = 1
   \<and> ''x_0_0'' \<in> set (map n_id (fst (flatten keep_case (LogicNode (Some ''leaf'') None (Some ''A'')
       (Some [LogicNode (Some ''leaf'') None (Some ''B'') None])) ''x'')))"
proof -
  have ident: "node_ident ''x'' ''0'' [0] = ''x_0_0''" by code_simp
  show ?thesis
    using leaf_with_children_asymmetry [of
      "LogicNode (Some ''leaf'') None (Some ''A'')
         (Some [LogicNode (Some ''leaf'') None (Some ''B'') None])"
      "[LogicNode (Some ''leaf'') None (Some ''B'') None]" keep_case "''x''"]
    by (simp add: count_nodes.simps dict_get_def ident)
qed


text \<open>
  C7. The claim gives the match score as the floor of the exact percentage, capped at
  100. The program computes the quotient and the product in binary64: for a compared
  tree of depth 29 and a reference tree of depth 50 the product is just below 58 and
  the score is 57, where the exact percentage is 58. For depths 2 and 3 the score is
  66, as claimed.
\<close>

theorem match_score_below_exact_percentage:
  "get_tree_depth (nested_spans 28) = 29
   \<and> get_tree_depth (nested_spans 49) = 50
   \<and> match_score (get_tree_depth (nested_spans 28)) (get_tree_depth (nested_spans 49)) = Inr 57
   \<and> min 100 \<lfloor>(29 / 50) * (100 :: rat)\<rfloor> = 58
   \<and> match_score 2 3 = Inr 66"
proof -
  have a: "match_score 29 50 = Inr 57" by code_simp
  have b: "min 100 \<lfloor>(29 / 50) * (100 :: rat)\<rfloor> = 58" by simp
  have c: "match_score 2 3 = Inr 66" by code_simp
  from a b c show ?thesis by (simp add: get_tree_depth_nested_spans)
qed

text \<open>
  C8. The depth of every tree is at least 1, so with a reference depth computed by
  \<open>get_tree_depth\<close> the guard \<^verbatim>\<open>depth_ref > 0\<close> holds and the match score is the one of
  the ratio branch, never the 0 of the guard branch.
\<close>

theorem get_tree_depth_positive:
  "1 \<le> get_tree_depth node
   \<and> 0 < get_tree_depth node
   \<and> match_score depth_comp (get_tree_depth node)
       = ratio_score depth_comp (get_tree_depth node)"
  using get_tree_depth_ge_1 [of node] by (simp add: match_score_def)



text \<open>
  C10. \<open>get_agraph_data\<close> only appends to the two lists it is given: the result is the
  initial node list followed by the nodes the call emits and the initial edge list
  followed by the edges it emits, and what it emits does not depend on the initial
  contents. The emitted nodes are those of the tree in depth-first pre-order, and so
  are the targets of the emitted edges (without the root when the call has no parent).
\<close>

theorem get_agraph_data_appends:
  "get_agraph_data tbl node (nodes_list, edges_list) pfx parent_id s =
     (nodes_list @ fst (get_agraph_data tbl node ([], []) pfx parent_id s),
      edges_list @ snd (get_agraph_data tbl node ([], []) pfx parent_id s))
   \<and> map n_id (fst (get_agraph_data tbl node ([], []) pfx parent_id s))
       = map (node_ident pfx s) (map fst (preorder node))
   \<and> map e_target (snd (get_agraph_data tbl node ([], []) pfx parent_id s))
       = map (node_ident pfx s) (map fst
           (if parent_id = None \<or> parent_id = Some [] then tl (preorder node)
            else preorder node))"
proof -
  let ?kids = "preorder_children (dict_get (node_children node) []) 0"
  have frame: "get_agraph_data tbl node (nodes_list, edges_list) pfx parent_id s =
     (nodes_list @ fst (get_agraph_data tbl node ([], []) pfx parent_id s),
      edges_list @ snd (get_agraph_data tbl node ([], []) pfx parent_id s))"
    unfolding get_agraph_data_preorder [of tbl node "(nodes_list, edges_list)"]
      get_agraph_data_preorder [of tbl node "([], [])"] by simp
  have ids: "map n_id (fst (get_agraph_data tbl node ([], []) pfx parent_id s))
       = map (node_ident pfx s) (map fst (preorder node))"
    unfolding get_agraph_data_preorder [of tbl node "([], [])"] fst_conv append_Nil
    by (rule n_id_path_node)
  have pre: "preorder node = ([], node) # ?kids"
    by (simp add: preorder.simps [of node])
  have own: "map e_target (parent_edge parent_id (pfx @ ''_'' @ s)) =
       (if parent_id = None \<or> parent_id = Some [] then [] else [node_ident pfx s []])"
    by (cases parent_id) (simp_all add: parent_edge_def visual_edge_def node_ident_def path_suffix_Nil)
  have targets: "map e_target (snd (get_agraph_data tbl node ([], []) pfx parent_id s))
       = map (node_ident pfx s) (map fst
           (if parent_id = None \<or> parent_id = Some [] then tl (preorder node)
            else preorder node))"
    unfolding get_agraph_data_preorder [of tbl node "([], [])"] snd_conv append_Nil map_append
      e_target_path_edge own pre
    by simp
  from frame ids targets show ?thesis by (simp only: simp_thms)
qed

end
